theory Spec2Isabelle
  imports Main "HOL-Library.Char_ord" "HOL-Library.List_Lexorder" "HOL-Library.Multiset"
begin

section \<open>Data model\<close>

text \<open>
  Scalar values of a source row. \<open>str(v)\<close> is the coercion that
  \<open>SyncManager.run\<close> applies to the key column and that the fingerprint applies to
  every value. Floating-point values are left out of the model.
\<close>

datatype pyval = VInt int | VStr string | VBool bool | VNone

definition digit_char :: "nat \<Rightarrow> char" where
  "digit_char d = ''0123456789'' ! d"

fun str_nat :: "nat \<Rightarrow> string" where
  "str_nat n = (if n < 10 then [digit_char n] else str_nat (n div 10) @ [digit_char (n mod 10)])"

declare str_nat.simps [simp del]

definition str_int :: "int \<Rightarrow> string" where
  "str_int i = (if i < 0 then CHR ''-'' # str_nat (nat (- i)) else str_nat (nat i))"

fun py_str :: "pyval \<Rightarrow> string" where
  "py_str (VInt i) = str_int i"
| "py_str (VStr s) = s"
| "py_str (VBool b) = (if b then ''True'' else ''False'')"
| "py_str VNone = ''None''"

text \<open>
  A Python \<open>dict\<close> keeps its keys in insertion order and holds each key once: an
  association list with distinct keys. \<open>d[k] = v\<close> overwrites the value in place when
  \<open>k\<close> is present and appends the pair otherwise.
\<close>

type_synonym ('k, 'v) dict = "('k \<times> 'v) list"

fun dict_set :: "('k, 'v) dict \<Rightarrow> 'k \<Rightarrow> 'v \<Rightarrow> ('k, 'v) dict" where
  "dict_set [] k v = [(k, v)]"
| "dict_set ((k', v') # d) k v = (if k' = k then (k, v) # d else (k', v') # dict_set d k v)"

definition dict_get :: "('k, 'v) dict \<Rightarrow> 'k \<Rightarrow> 'v option" where
  "dict_get d k = map_of d k"

definition dict_has :: "('k, 'v) dict \<Rightarrow> 'k \<Rightarrow> bool" where
  "dict_has d k = (map_of d k \<noteq> None)"

definition dict_keys :: "('k, 'v) dict \<Rightarrow> 'k list" where
  "dict_keys d = map fst d"

definition dict_values :: "('k, 'v) dict \<Rightarrow> 'v list" where
  "dict_values d = map snd d"

type_synonym pyrec = "(string, pyval) dict"

type_synonym fingerprint = string

type_synonym hash_state = "(string, fingerprint) dict"

section \<open>Fingerprint and diff engine\<close>

fun join :: "string \<Rightarrow> string list \<Rightarrow> string" where
  "join sep [] = []"
| "join sep [x] = x"
| "join sep (x # y # ys) = x @ sep @ join sep (y # ys)"

text \<open>
  Modelled from the spec: \<open>record_hash\<close> of \<open>arcsync.sync.cdc\<close>, which
  \<open>pipeline_manager.py\<close> imports and which is not among the source files. Following
  section 4.1 of the specification, the non-key fields are sorted by field name, each is
  rendered as \<open>field=value\<close>, the pieces are joined by a fixed separator, and the
  result is digested. The digest function is a parameter \<open>H\<close>; so is the key field
  name \<open>hk\<close>, because the call sites pass the record alone.
\<close>

definition canonical_fields :: "string \<Rightarrow> pyrec \<Rightarrow> (string \<times> pyval) list" where
  "canonical_fields hk rec = sort_key fst (filter (\<lambda>(f, v). f \<noteq> hk) rec)"

definition canonical_string :: "string \<Rightarrow> pyrec \<Rightarrow> string" where
  "canonical_string hk rec =
     join ''|'' (map (\<lambda>(f, v). f @ ''='' @ py_str v) (canonical_fields hk rec))"

definition record_hash :: "(string \<Rightarrow> fingerprint) \<Rightarrow> string \<Rightarrow> pyrec \<Rightarrow> fingerprint" where
  "record_hash H hk rec = H (canonical_string hk rec)"

text \<open>
  Modelled from the spec: \<open>diff_by_hash\<close> of \<open>arcsync.sync.cdc\<close>, not among the
  source files. Following section 4.2, the current dataset is walked in its insertion
  order; a record whose key is absent from the previous state is appended to
  \<open>to_insert\<close>, one whose key is present with a different stored fingerprint is
  appended to \<open>to_update\<close>, and one whose fingerprint matches is dropped.
\<close>

fun diff_loop ::
  "(pyrec \<Rightarrow> fingerprint) \<Rightarrow> hash_state \<Rightarrow> (string, pyrec) dict \<Rightarrow>
   pyrec list \<Rightarrow> pyrec list \<Rightarrow> pyrec list \<times> pyrec list" where
  "diff_loop h prev [] to_insert to_update = (to_insert, to_update)"
| "diff_loop h prev ((k, rec) # rest) to_insert to_update =
     (case dict_get prev k of
        None \<Rightarrow> diff_loop h prev rest (to_insert @ [rec]) to_update
      | Some old \<Rightarrow>
          (if old \<noteq> h rec then diff_loop h prev rest to_insert (to_update @ [rec])
           else diff_loop h prev rest to_insert to_update))"

definition diff_by_hash ::
  "(string \<Rightarrow> fingerprint) \<Rightarrow> string \<Rightarrow> (string, pyrec) dict \<Rightarrow> hash_state \<Rightarrow>
   pyrec list \<times> pyrec list" where
  "diff_by_hash H hk current prev = diff_loop (record_hash H hk) prev current [] []"

section \<open>The sync manager\<close>

text \<open>
  The environment of a run. \<open>digest\<close> is the hash behind the fingerprint and
  \<open>hash_key\<close> the key field that \<open>record_hash\<close> leaves out; \<open>json_loads\<close> and
  \<open>json_dumps\<close> are the library calls of \<open>_load_state\<close> and \<open>_save_state\<close>, with
  \<open>None\<close> for a content that \<open>json.loads\<close> rejects. The type \<open>'f\<close> is the content
  of a file. The return annotation \<open>Dict[str, str]\<close> of \<open>_load_state\<close> fixes what a
  successful parse yields.
\<close>

record 'f env =
  digest :: "string \<Rightarrow> fingerprint"
  hash_key :: string
  json_loads :: "'f \<Rightarrow> hash_state option"
  json_dumps :: "hash_state \<Rightarrow> 'f"

datatype log_entry =
    StateCorruptWarning
  | Detected nat nat
  | DryRunWould nat nat
  | SinkStubWarning
  | SyncCompleted

datatype sync_error =
    KeyError string pyrec
  | SinkRaised string

text \<open>
  What a run can observe and change: the state file
  \<open>.arcsync/<project>_hashes.json\<close> (\<open>None\<close> when it does not exist), the external
  feature layer, and the log. \<open>sink_calls\<close> is a history of the arguments of every
  \<open>sink.upsert\<close> call, kept to state what reached the sink.
\<close>

record 'f world =
  state_file :: "'f option"
  store :: "pyrec list"
  sink_calls :: "(pyrec list \<times> pyrec list) list"
  logged :: "log_entry list"

record SyncManager =
  key_col :: string
  dry_run :: bool

text \<open>
  A sink is any object with an \<open>upsert\<close> method. Called with the two lists and the
  external store, it answers with the exception it raised, if any, the store it leaves
  behind and the lines it logged.
\<close>

type_synonym sink =
  "bool \<Rightarrow> pyrec list \<Rightarrow> pyrec list \<Rightarrow> pyrec list \<Rightarrow> string option \<times> pyrec list \<times> log_entry list"

definition ArcGisOnlineSink_upsert :: sink where
  "ArcGisOnlineSink_upsert dry to_insert to_update st =
     (if dry then (None, st, [DryRunWould (length to_insert) (length to_update)])
      else (None, st, [SinkStubWarning]))"

definition load_state :: "'f env \<Rightarrow> 'f world \<Rightarrow> hash_state \<times> log_entry list" where
  "load_state e w =
     (case state_file w of
        None \<Rightarrow> ([], [])
      | Some content \<Rightarrow>
          (case json_loads e content of
             Some st \<Rightarrow> (st, [])
           | None \<Rightarrow> ([], [StateCorruptWarning])))"

definition save_state :: "'f env \<Rightarrow> hash_state \<Rightarrow> 'f world \<Rightarrow> 'f world" where
  "save_state e hashes w = w\<lparr>state_file := Some (json_dumps e hashes)\<rparr>"

text \<open>
  \<open>_save_state\<close> is one call of \<open>Path.write_text\<close>, which opens the file for
  writing, thereby cutting it to length zero, and then writes the text; there is no
  temporary file and no rename. \<open>write_text_steps\<close> lists the contents the file
  holds in turn once the call has begun, \<open>blank\<close> being the content of a file of
  length zero, and \<open>save_state_steps\<close> the worlds that go with them; the last of
  them is the world \<open>save_state\<close> returns.
\<close>

definition write_text_steps :: "'f \<Rightarrow> 'f \<Rightarrow> 'f list" where
  "write_text_steps blank content = [blank, content]"

definition save_state_steps :: "'f \<Rightarrow> 'f env \<Rightarrow> hash_state \<Rightarrow> 'f world \<Rightarrow> 'f world list" where
  "save_state_steps blank e hashes w =
     map (\<lambda>c. w\<lparr>state_file := Some c\<rparr>) (write_text_steps blank (json_dumps e hashes))"

fun build_current_map ::
  "string \<Rightarrow> pyrec list \<Rightarrow> (string, pyrec) dict \<Rightarrow> sync_error + (string, pyrec) dict" where
  "build_current_map kc [] current_map = Inr current_map"
| "build_current_map kc (rec # rest) current_map =
     (case dict_get rec kc of
        None \<Rightarrow> Inl (KeyError kc rec)
      | Some v \<Rightarrow> build_current_map kc rest (dict_set current_map (py_str v) rec))"

definition new_hashes :: "'f env \<Rightarrow> (string, pyrec) dict \<Rightarrow> hash_state" where
  "new_hashes e current_map =
     map (\<lambda>(k, v). (k, record_hash (digest e) (hash_key e) v)) current_map"

definition run_with ::
  "'f env \<Rightarrow> sink \<Rightarrow> SyncManager \<Rightarrow> pyrec list \<Rightarrow> 'f world \<Rightarrow> sync_error option \<times> 'f world" where
  "run_with e upsert sm recs w =
     (case build_current_map (key_col sm) recs [] of
        Inl err \<Rightarrow> (Some err, w)
      | Inr current_map \<Rightarrow>
          (let (prev_hash, warn) = load_state e w;
               (to_insert, to_update) = diff_by_hash (digest e) (hash_key e) current_map prev_hash;
               w1 = w\<lparr>logged := logged w @ warn @ [Detected (length to_insert) (length to_update)],
                      sink_calls := sink_calls w @ [(to_insert, to_update)]\<rparr>;
               (raised, st, lines) = upsert (dry_run sm) to_insert to_update (store w1);
               w2 = w1\<lparr>store := st, logged := logged w1 @ lines\<rparr>
           in case raised of
                Some msg \<Rightarrow> (Some (SinkRaised msg), w2)
              | None \<Rightarrow>
                  (let w3 = save_state e (new_hashes e current_map) w2
                   in (None, w3\<lparr>logged := logged w3 @ [SyncCompleted]\<rparr>))))"

definition run :: "'f env \<Rightarrow> SyncManager \<Rightarrow> pyrec list \<Rightarrow> 'f world \<Rightarrow> sync_error option \<times> 'f world" where
  "run e sm recs w = run_with e ArcGisOnlineSink_upsert sm recs w"

section \<open>Batch upload\<close>

text \<open>
  \<open>append_batches\<close> of \<open>spatial_etl.py\<close>. A row of the data frame has type \<open>'r\<close>, a
  feature set \<open>'fs\<close>, the layer's state \<open>'l\<close>. \<open>build_featureset\<close> and
  \<open>layer.edit_features\<close> belong to the platform SDK and are parameters; \<open>Inl\<close> is the
  exception they raise. An entry of \<open>addResults\<close> carries its \<open>success\<close> flag and
  its \<open>error\<close>.
\<close>

datatype add_result = AddResult (ar_success: bool) (ar_error: string)

text \<open>
  Every exception that leaves \<open>append_batches\<close> is a \<open>RuntimeError\<close> wrapping the
  original one after the text \<open>Failed during batch appending\<close>; the constructors name
  the original.
\<close>

datatype etl_error =
    RangeStepZero
  | BuildRaised string
  | EditRaised string
  | AddsFailed nat string

text \<open>
  The local variables of the loop; \<open>calls\<close> is a history of the feature sets handed
  to \<open>edit_features\<close>.
\<close>

record ('fs, 'l) batch_st =
  total_added :: nat
  errors :: "string list"
  layer :: 'l
  calls :: "'fs list"


function append_loop ::
  "('r list \<Rightarrow> string + 'fs) \<Rightarrow> ('fs \<Rightarrow> 'l \<Rightarrow> string + add_result list \<times> 'l) \<Rightarrow>
   'r list \<Rightarrow> nat \<Rightarrow> nat \<Rightarrow> ('fs, 'l) batch_st \<Rightarrow> etl_error option \<times> ('fs, 'l) batch_st" where
  "append_loop build edit sdf bs start st =
     (if 0 < bs \<and> start < length sdf then
        (let stop = min (start + bs) (length sdf)
         in case build (take (stop - start) (drop start sdf)) of
              Inl msg \<Rightarrow> (Some (BuildRaised msg), st)
            | Inr fs \<Rightarrow>
                (case edit fs (layer st) of
                   Inl msg \<Rightarrow> (Some (EditRaised msg), st\<lparr>calls := calls st @ [fs]\<rparr>)
                 | Inr (add_results, layer') \<Rightarrow>
                     append_loop build edit sdf bs (start + bs)
                       (st\<lparr>total_added := total_added st + length (filter ar_success add_results),
                           errors := errors st @ map ar_error (filter (\<lambda>r. \<not> ar_success r) add_results),
                           layer := layer',
                           calls := calls st @ [fs]\<rparr>)))
      else (None, st))"
  by pat_completeness auto
termination
  by (relation "measure (\<lambda>(build, edit, sdf, bs, start, st). length sdf - start)") auto

declare append_loop.simps [simp del]






section \<open>Notions used in the statements\<close>

text \<open>
  The record read last among those whose key column coerces to the string \<open>k\<close>.
\<close>

definition last_with_key :: "string \<Rightarrow> pyrec list \<Rightarrow> string \<Rightarrow> pyrec option" where
  "last_with_key kc recs k =
     (case filter (\<lambda>r. map_option py_str (dict_get r kc) = Some k) recs of
        [] \<Rightarrow> None
      | r # rs \<Rightarrow> Some (last (r # rs)))"

text \<open>Concrete inputs on which the theorems below are exercised.\<close>

definition ex_alice :: pyrec where
  "ex_alice = [(''id'', VInt 1), (''name'', VStr ''Alice''), (''value'', VInt 100)]"

definition ex_alice_reordered :: pyrec where
  "ex_alice_reordered = [(''value'', VInt 100), (''id'', VInt 1), (''name'', VStr ''Alice'')]"

definition ex_dataset :: "(string, pyrec) dict" where
  "ex_dataset =
     [(''1'', [(''id'', VInt 1), (''name'', VStr ''Alice'')]),
      (''2'', [(''id'', VInt 2), (''name'', VStr ''Bob'')]),
      (''3'', [(''id'', VInt 3), (''name'', VStr ''Cy'')])]"

definition ex_prev :: hash_state where
  "ex_prev = [(''2'', ''name=Rob''), (''3'', ''name=Cy''), (''9'', ''name=Zed'')]"

definition ex_env :: "hash_state env" where
  "ex_env = \<lparr>digest = (\<lambda>s. s), hash_key = ''id'', json_loads = Some, json_dumps = (\<lambda>h. h)\<rparr>"

definition ex_world :: "hash_state world" where
  "ex_world = \<lparr>state_file = None, store = [], sink_calls = [], logged = []\<rparr>"

definition ex_source :: "pyrec list" where
  "ex_source = [[(''id'', VInt 1), (''name'', VStr ''Alice'')]]"

definition ex_manager :: SyncManager where
  "ex_manager = \<lparr>key_col = ''id'', dry_run = False\<rparr>"

definition ex_dry_manager :: SyncManager where
  "ex_dry_manager = \<lparr>key_col = ''id'', dry_run = True\<rparr>"

definition ex_source_missing :: "pyrec list" where
  "ex_source_missing = [[(''id'', VInt 1), (''name'', VStr ''Alice'')], [(''name'', VStr ''Bob'')]]"

definition ex_source_dup :: "pyrec list" where
  "ex_source_dup = [[(''id'', VInt 1), (''name'', VStr ''Alice'')], [(''id'', VStr ''1''), (''name'', VStr ''Bob'')]]"

definition ex_failing_sink :: sink where
  "ex_failing_sink dry to_insert to_update st = (Some ''unreachable'', st, [])"

definition ex_bob :: pyrec where
  "ex_bob = [(''id'', VStr ''1''), (''name'', VStr ''Bob'')]"

definition ex_env_reject :: "hash_state env" where
  "ex_env_reject = \<lparr>digest = (\<lambda>s. s), hash_key = ''id'', json_loads = (\<lambda>c. None), json_dumps = (\<lambda>h. h)\<rparr>"

definition ex_world_stale :: "hash_state world" where
  "ex_world_stale = \<lparr>state_file = Some ex_prev, store = [], sink_calls = [], logged = []\<rparr>"



definition ex_file_env :: "hash_state option env" where
  "ex_file_env = \<lparr>digest = (\<lambda>s. s), hash_key = ''id'', json_loads = (\<lambda>c. c), json_dumps = Some\<rparr>"

definition ex_file_world :: "hash_state option world" where
  "ex_file_world = \<lparr>state_file = Some (Some ex_prev), store = [], sink_calls = [], logged = []\<rparr>"

section \<open>The diff engine classifies every key once\<close>

lemma diff_loop_filter:
  "diff_loop h prev cur ins upd =
     (ins @ map snd (filter (\<lambda>(k, r). dict_get prev k = None) cur),
      upd @ map snd (filter (\<lambda>(k, r). dict_get prev k \<noteq> None \<and> dict_get prev k \<noteq> Some (h r)) cur))"
  by (induction h prev cur ins upd rule: diff_loop.induct) (auto split: option.splits)

lemma three_way_count:
  "length (filter (\<lambda>(k, r). \<not> dict_has S k) D) +
   length (filter (\<lambda>(k, r). dict_has S k \<and> dict_get S k \<noteq> Some (h r)) D) +
   length (filter (\<lambda>(k, r). dict_get S k = Some (h r)) D) = length D"
  by (induction D) (auto simp: dict_has_def dict_get_def)

text \<open>
  Claim C1. For every current dataset \<open>D\<close> and prior state \<open>S\<close>, \<open>to_insert\<close> holds
  exactly the records of \<open>D\<close> whose key is absent from \<open>S\<close>, and \<open>to_update\<close>
  exactly those whose key is present with a stored fingerprint different from the fresh
  one, both in the order of \<open>D\<close>. Every entry of \<open>D\<close> is therefore in exactly one
  of the classes insert, update and unchanged (the sizes of the three add up to the size
  of \<open>D\<close>), and whatever the lists hold is a record of \<open>D\<close>, so a key of
  \<open>S\<close> that \<open>D\<close> lacks contributes to neither list.
\<close>

theorem diff_by_hash_partition:
  "fst (diff_by_hash H hk D S) = map snd (filter (\<lambda>(k, r). \<not> dict_has S k) D) \<and>
   snd (diff_by_hash H hk D S) =
     map snd (filter (\<lambda>(k, r). dict_has S k \<and> dict_get S k \<noteq> Some (record_hash H hk r)) D) \<and>
   length (fst (diff_by_hash H hk D S)) + length (snd (diff_by_hash H hk D S)) +
     length (filter (\<lambda>(k, r). dict_get S k = Some (record_hash H hk r)) D) = length D \<and>
   (\<forall>(k, r) \<in> set D.
      (if \<not> dict_has S k then r \<in> set (fst (diff_by_hash H hk D S))
       else if dict_get S k \<noteq> Some (record_hash H hk r) then r \<in> set (snd (diff_by_hash H hk D S))
       else dict_get S k = Some (record_hash H hk r))) \<and>
   set (fst (diff_by_hash H hk D S) @ snd (diff_by_hash H hk D S)) \<subseteq> set (dict_values D)"
proof -
  let ?h = "record_hash H hk"
  have i: "fst (diff_by_hash H hk D S) = map snd (filter (\<lambda>(k, r). \<not> dict_has S k) D)"
    by (simp add: diff_by_hash_def diff_loop_filter dict_has_def dict_get_def)
  have u: "snd (diff_by_hash H hk D S) =
      map snd (filter (\<lambda>(k, r). dict_has S k \<and> dict_get S k \<noteq> Some (?h r)) D)"
    by (simp add: diff_by_hash_def diff_loop_filter dict_has_def dict_get_def)
  have n: "length (fst (diff_by_hash H hk D S)) + length (snd (diff_by_hash H hk D S)) +
      length (filter (\<lambda>(k, r). dict_get S k = Some (?h r)) D) = length D"
    using three_way_count [of S D ?h] by (simp add: i u)
  have m: "\<forall>(k, r) \<in> set D.
      (if \<not> dict_has S k then r \<in> set (fst (diff_by_hash H hk D S))
       else if dict_get S k \<noteq> Some (?h r) then r \<in> set (snd (diff_by_hash H hk D S))
       else dict_get S k = Some (?h r))"
    unfolding i u by (auto intro: rev_image_eqI)
  have s: "set (fst (diff_by_hash H hk D S) @ snd (diff_by_hash H hk D S)) \<subseteq> set (dict_values D)"
    unfolding i u by (auto simp: dict_values_def)
  from i u n m s show ?thesis by blast
qed

theorem diff_by_hash_partition_witness:
  "fst (diff_by_hash (\<lambda>s. s) ''id'' ex_dataset ex_prev) = [[(''id'', VInt 1), (''name'', VStr ''Alice'')]] \<and>
   snd (diff_by_hash (\<lambda>s. s) ''id'' ex_dataset ex_prev) = [[(''id'', VInt 2), (''name'', VStr ''Bob'')]]"
  using diff_by_hash_partition [of "\<lambda>s. s" "''id''" ex_dataset ex_prev]
  by (simp add: ex_dataset_def ex_prev_def dict_has_def dict_get_def record_hash_def
        canonical_string_def canonical_fields_def)

section \<open>The fingerprint ignores the order of the fields\<close>

lemma filter_fields_set:
  assumes d1: "distinct (map fst r1)" and d2: "distinct (map fst r2)"
    and eq: "\<forall>f. f \<noteq> hk \<longrightarrow> map_of r1 f = map_of r2 f"
  shows "set (filter (\<lambda>(f, v). f \<noteq> hk) r1) = set (filter (\<lambda>(f, v). f \<noteq> hk) r2)"
proof -
  have "(f, v) \<in> set r1 \<longleftrightarrow> (f, v) \<in> set r2" if "f \<noteq> hk" for f v
  proof -
    have "(f, v) \<in> set r1 \<longleftrightarrow> map_of r1 f = Some v" using d1 by simp
    also have "\<dots> \<longleftrightarrow> map_of r2 f = Some v" using eq that by simp
    also have "\<dots> \<longleftrightarrow> (f, v) \<in> set r2" using d2 by simp
    finally show ?thesis .
  qed
  then show ?thesis by auto
qed

lemma filter_same_key:
  "distinct (map fst a) \<Longrightarrow> k \<in> set a \<Longrightarrow> filter (\<lambda>x. fst k = fst x) a = [k]"
proof (induction a)
  case Nil
  then show ?case by simp
next
  case (Cons x a)
  have fresh: "fst x \<notin> fst ` set a" using Cons.prems(1) by simp
  show ?case
  proof (cases "k = x")
    case True
    from fresh have "\<forall>y \<in> set a. fst y \<noteq> fst x" by (metis imageI)
    then have "filter (\<lambda>y. fst x = fst y) a = []" by (auto simp: filter_empty_conv)
    with True show ?thesis by simp
  next
    case False
    then have ka: "k \<in> set a" using Cons.prems(2) by simp
    from fresh have "fst k \<noteq> fst x" using ka by (metis imageI)
    moreover have "filter (\<lambda>x. fst k = fst x) a = [k]" using Cons.IH Cons.prems(1) ka by simp
    ultimately show ?thesis by simp
  qed
qed

lemma sort_key_fst_unique:
  fixes a b :: "(string \<times> 'v) list"
  assumes da: "distinct (map fst a)" and db: "distinct (map fst b)" and s: "set a = set b"
  shows "sort_key fst a = sort_key fst b"
proof (rule properties_for_sort_key)
  have "distinct a" "distinct b" using da db by (simp_all add: distinct_map)
  then have "mset a = mset b" using s by (simp add: set_eq_iff_mset_eq_distinct)
  then show "mset (sort_key fst b) = mset a" by simp
next
  fix k assume "k \<in> set (sort_key fst b)"
  then have kb: "k \<in> set b" by simp
  then have ka: "k \<in> set a" using s by simp
  have "filter (\<lambda>x. fst k = fst x) (sort_key fst b) = sort_key fst (filter (\<lambda>x. fst k = fst x) b)"
    by (simp add: filter_sort)
  also have "\<dots> = [k]" using filter_same_key [OF db kb] by simp
  also have "\<dots> = filter (\<lambda>x. fst k = fst x) a" using filter_same_key [OF da ka] by simp
  finally show "filter (\<lambda>x. fst k = fst x) (sort_key fst b) = filter (\<lambda>x. fst k = fst x) a" .
next
  show "sorted (map fst (sort_key fst b))" by simp
qed

lemma canonical_fields_perm:
  assumes d1: "distinct (map fst r1)" and d2: "distinct (map fst r2)"
    and eq: "\<forall>f. f \<noteq> hk \<longrightarrow> map_of r1 f = map_of r2 f"
  shows "canonical_fields hk r1 = canonical_fields hk r2"
  unfolding canonical_fields_def
proof (rule sort_key_fst_unique)
  show "distinct (map fst (filter (\<lambda>(f, v). f \<noteq> hk) r1))"
    using d1 by (rule distinct_map_filter)
  show "distinct (map fst (filter (\<lambda>(f, v). f \<noteq> hk) r2))"
    using d2 by (rule distinct_map_filter)
  show "set (filter (\<lambda>(f, v). f \<noteq> hk) r1) = set (filter (\<lambda>(f, v). f \<noteq> hk) r2)"
    using d1 d2 eq by (rule filter_fields_set)
qed

text \<open>
  Claim C2. The fingerprint digests the non-key fields only, in the order of their sorted
  names: two records (dictionaries, so each field name occurs once) that agree on every
  field other than the key field have the same fingerprint, in whatever order their
  fields were inserted and whatever their key fields hold.
\<close>

theorem record_hash_order_independent:
  assumes "distinct (dict_keys r1)" and "distinct (dict_keys r2)"
    and "\<forall>f. f \<noteq> hk \<longrightarrow> dict_get r1 f = dict_get r2 f"
  shows "record_hash H hk r1 = record_hash H hk r2 \<and>
         sorted (map fst (canonical_fields hk r1)) \<and>
         set (canonical_fields hk r1) = {(f, v). (f, v) \<in> set r1 \<and> f \<noteq> hk}"
proof -
  have "canonical_fields hk r1 = canonical_fields hk r2"
    using assms by (intro canonical_fields_perm) (simp_all add: dict_keys_def dict_get_def)
  then have "record_hash H hk r1 = record_hash H hk r2"
    by (simp add: record_hash_def canonical_string_def)
  moreover have "sorted (map fst (canonical_fields hk r1))"
    by (simp add: canonical_fields_def)
  moreover have "set (canonical_fields hk r1) = {(f, v). (f, v) \<in> set r1 \<and> f \<noteq> hk}"
    by (auto simp: canonical_fields_def)
  ultimately show ?thesis by simp
qed

theorem record_hash_order_independent_witness:
  "record_hash (\<lambda>s. s) ''id'' ex_alice = record_hash (\<lambda>s. s) ''id'' ex_alice_reordered \<and>
   distinct (dict_keys ex_alice) \<and> distinct (dict_keys ex_alice_reordered) \<and>
   ex_alice \<noteq> ex_alice_reordered"
proof -
  have d1: "distinct (dict_keys ex_alice)" by (simp add: ex_alice_def dict_keys_def)
  have d2: "distinct (dict_keys ex_alice_reordered)"
    by (simp add: ex_alice_reordered_def dict_keys_def)
  have eq: "\<forall>f. f \<noteq> ''id'' \<longrightarrow> dict_get ex_alice f = dict_get ex_alice_reordered f"
    by (simp add: ex_alice_def ex_alice_reordered_def dict_get_def)
  have "ex_alice \<noteq> ex_alice_reordered" by (simp add: ex_alice_def ex_alice_reordered_def)
  then show ?thesis using record_hash_order_independent [OF d1 d2 eq, of "\<lambda>s. s"] d1 d2 by simp
qed

section \<open>Facts about dictionaries and the current dataset\<close>

lemma map_of_dict_set: "map_of (dict_set d k v) = (map_of d)(k \<mapsto> v)"
  by (induction d k v rule: dict_set.induct) auto

lemma keys_dict_set: "fst ` set (dict_set d k v) = insert k (fst ` set d)"
  by (induction d k v rule: dict_set.induct) auto

lemma distinct_dict_set: "distinct (map fst d) \<Longrightarrow> distinct (map fst (dict_set d k v))"
proof (induction d k v rule: dict_set.induct)
  case (1 k v)
  then show ?case by simp
next
  case (2 k' v' d k v)
  show ?case
  proof (cases "k' = k")
    case True
    then show ?thesis using "2.prems" by simp
  next
    case False
    have "k' \<notin> fst ` set d" using "2.prems" by simp
    then have "k' \<notin> fst ` set (dict_set d k v)" using False by (simp add: keys_dict_set)
    moreover have "distinct (map fst (dict_set d k v))" using "2.IH" [OF False] "2.prems" by simp
    ultimately show ?thesis using False by simp
  qed
qed

lemma last_with_key_Nil: "last_with_key kc [] k = None"
  by (simp add: last_with_key_def)

lemma last_with_key_Cons:
  "last_with_key kc (rec # rest) k =
     (case last_with_key kc rest k of
        Some r \<Rightarrow> Some r
      | None \<Rightarrow> (if map_option py_str (dict_get rec kc) = Some k then Some rec else None))"
  by (cases "filter (\<lambda>r. map_option py_str (dict_get r kc) = Some k) rest")
     (simp_all add: last_with_key_def)

lemma build_distinct:
  "build_current_map kc recs cm0 = Inr cm \<Longrightarrow> distinct (map fst cm0) \<Longrightarrow> distinct (map fst cm)"
  by (induction kc recs cm0 rule: build_current_map.induct)
     (auto split: option.splits simp: distinct_dict_set)

lemma build_lookup:
  "build_current_map kc recs cm0 = Inr cm \<Longrightarrow>
   map_of cm k = (case last_with_key kc recs k of None \<Rightarrow> map_of cm0 k | Some r \<Rightarrow> Some r)"
proof (induction kc recs cm0 rule: build_current_map.induct)
  case (1 kc current_map)
  then show ?case by (simp add: last_with_key_Nil)
next
  case (2 kc rec rest current_map)
  from "2.prems" obtain v where v: "dict_get rec kc = Some v"
    and b: "build_current_map kc rest (dict_set current_map (py_str v) rec) = Inr cm"
    by (auto split: option.splits)
  have ih: "map_of cm k = (case last_with_key kc rest k of
       None \<Rightarrow> map_of (dict_set current_map (py_str v) rec) k | Some r \<Rightarrow> Some r)"
    using "2.IH" [OF v b] .
  show ?case
    using ih v by (auto simp: last_with_key_Cons map_of_dict_set split: option.splits)
qed

lemma build_fails:
  "\<exists>rec \<in> set recs. dict_get rec kc = None \<Longrightarrow>
   \<exists>pre rec post. recs = pre @ rec # post \<and> (\<forall>r \<in> set pre. dict_get r kc \<noteq> None) \<and>
      dict_get rec kc = None \<and> build_current_map kc recs cm0 = Inl (KeyError kc rec)"
proof (induction kc recs cm0 rule: build_current_map.induct)
  case (1 kc current_map)
  then show ?case by simp
next
  case (2 kc rec rest current_map)
  show ?case
  proof (cases "dict_get rec kc")
    case None
    then have "rec # rest = [] @ rec # rest \<and> (\<forall>r \<in> set []. dict_get r kc \<noteq> None) \<and>
      dict_get rec kc = None \<and> build_current_map kc (rec # rest) current_map = Inl (KeyError kc rec)"
      by simp
    then show ?thesis by blast
  next
    case (Some v)
    then have "\<exists>r \<in> set rest. dict_get r kc = None" using "2.prems" by auto
    from "2.IH" [OF Some this] obtain pre r post where
      p: "rest = pre @ r # post" "\<forall>x \<in> set pre. dict_get x kc \<noteq> None" "dict_get r kc = None"
        "build_current_map kc rest (dict_set current_map (py_str v) rec) = Inl (KeyError kc r)"
      by blast
    have "rec # rest = (rec # pre) @ r # post \<and> (\<forall>x \<in> set (rec # pre). dict_get x kc \<noteq> None) \<and>
      dict_get r kc = None \<and> build_current_map kc (rec # rest) current_map = Inl (KeyError kc r)"
      using p Some by simp
    then show ?thesis by blast
  qed
qed


lemma diff_same_state:
  assumes "distinct (map fst cm)"
  shows "diff_by_hash H hk cm (map (\<lambda>(k, v). (k, record_hash H hk v)) cm) = ([], [])"
proof -
  let ?h = "record_hash H hk"
  let ?S = "map (\<lambda>(k, v). (k, ?h v)) cm"
  have look: "dict_get ?S k = Some (?h r)" if "(k, r) \<in> set cm" for k r
  proof -
    have "map_of cm k = Some r" using assms that by simp
    then show ?thesis by (simp add: dict_get_def map_of_map)
  qed
  have "filter (\<lambda>(k, r). dict_get ?S k = None) cm = []"
    using look by (auto simp: filter_empty_conv)
  moreover have "filter (\<lambda>(k, r). dict_get ?S k \<noteq> None \<and> dict_get ?S k \<noteq> Some (?h r)) cm = []"
    using look by (auto simp: filter_empty_conv)
  ultimately show ?thesis by (simp add: diff_by_hash_def diff_loop_filter)
qed

lemma diff_empty_state: "diff_by_hash H hk cm [] = (dict_values cm, [])"
proof -
  have "filter (\<lambda>(k, r). dict_get ([] :: hash_state) k = None) cm = cm"
    by (simp add: dict_get_def case_prod_beta)
  then show ?thesis by (simp add: diff_by_hash_def diff_loop_filter dict_values_def dict_get_def)
qed

lemma run_with_Inl:
  "build_current_map (key_col sm) recs [] = Inl err \<Longrightarrow> run_with e u sm recs w = (Some err, w)"
  by (simp add: run_with_def)

lemma run_with_Inr:
  assumes "build_current_map (key_col sm) recs [] = Inr cm"
  shows "sink_calls (snd (run_with e u sm recs w)) =
           sink_calls w @ [diff_by_hash (digest e) (hash_key e) cm (fst (load_state e w))]"
    and "fst (run_with e u sm recs w) = None \<Longrightarrow>
           state_file (snd (run_with e u sm recs w)) = Some (json_dumps e (new_hashes e cm))"
    and "fst (run_with e u sm recs w) \<noteq> None \<Longrightarrow>
           state_file (snd (run_with e u sm recs w)) = state_file w"
  using assms
  by (auto simp: run_with_def save_state_def Let_def split: prod.splits option.splits)

lemmas ex_defs = run_def ex_env_def ex_manager_def ex_dry_manager_def ex_source_def ex_world_def
  ex_source_missing_def ex_source_dup_def ex_failing_sink_def ex_bob_def ex_env_reject_def
  ex_world_stale_def ex_prev_def ex_dataset_def

lemmas eval_defs = run_with_def dict_get_def dict_has_def dict_keys_def dict_values_def
  str_int_def str_nat.simps digit_char_def load_state_def diff_by_hash_def
  ArcGisOnlineSink_upsert_def save_state_def new_hashes_def record_hash_def
  canonical_string_def canonical_fields_def last_with_key_def

section \<open>Idempotence of a run\<close>

text \<open>
  Claim C3. If a run over the records of a source completes and saves its state, and the
  JSON library reads back every dictionary it wrote, then diffing the same dataset
  against the saved state yields an empty \<open>to_insert\<close> and an empty
  \<open>to_update\<close>; a second run over the same source, with any sink and either
  dry-run setting, hands the sink two empty lists.
\<close>

theorem run_twice_empty_diff:
  assumes ok: "run_with e upsert sm recs w = (None, w')"
    and rt: "\<forall>h. distinct (dict_keys h) \<longrightarrow> json_loads e (json_dumps e h) = Some h"
  shows "\<exists>cm. build_current_map (key_col sm) recs [] = Inr cm \<and>
           diff_by_hash (digest e) (hash_key e) cm (fst (load_state e w')) = ([], []) \<and>
           (\<forall>u2 d2. sink_calls (snd (run_with e u2 (sm\<lparr>dry_run := d2\<rparr>) recs w')) =
                      sink_calls w' @ [([], [])])"
proof -
  obtain cm where cm: "build_current_map (key_col sm) recs [] = Inr cm"
    using ok by (cases "build_current_map (key_col sm) recs []") (auto simp: run_with_def)
  have dist: "distinct (map fst cm)" using build_distinct [OF cm] by simp
  have "state_file w' = Some (json_dumps e (new_hashes e cm))"
    using run_with_Inr(2) [OF cm, of e upsert w] ok by simp
  moreover have "distinct (dict_keys (new_hashes e cm))"
    using dist by (simp add: new_hashes_def dict_keys_def case_prod_beta comp_def)
  ultimately have "fst (load_state e w') = new_hashes e cm"
    using rt by (simp add: load_state_def)
  then have d: "diff_by_hash (digest e) (hash_key e) cm (fst (load_state e w')) = ([], [])"
    using diff_same_state [OF dist] by (simp add: new_hashes_def)
  have "sink_calls (snd (run_with e u2 (sm\<lparr>dry_run := d2\<rparr>) recs w')) = sink_calls w' @ [([], [])]"
    for u2 d2
    using run_with_Inr(1) [of "sm\<lparr>dry_run := d2\<rparr>" recs cm e u2 w'] cm d by simp
  with cm d show ?thesis by blast
qed

theorem run_twice_empty_diff_witness:
  "fst (run_with ex_env ArcGisOnlineSink_upsert ex_manager ex_source ex_world) = None \<and>
   sink_calls (snd (run_with ex_env ArcGisOnlineSink_upsert ex_manager ex_source
      (snd (run_with ex_env ArcGisOnlineSink_upsert ex_manager ex_source ex_world)))) =
     [([[(''id'', VInt 1), (''name'', VStr ''Alice'')]], []), ([], [])]"
proof -
  let ?w1 = "snd (run_with ex_env ArcGisOnlineSink_upsert ex_manager ex_source ex_world)"
  have f1: "fst (run_with ex_env ArcGisOnlineSink_upsert ex_manager ex_source ex_world) = None"
    by (simp add: ex_defs eval_defs)
  then have ok: "run_with ex_env ArcGisOnlineSink_upsert ex_manager ex_source ex_world = (None, ?w1)"
    by (metis prod.collapse)
  have rt: "\<forall>h. distinct (dict_keys h) \<longrightarrow> json_loads ex_env (json_dumps ex_env h) = Some h"
    by (simp add: ex_env_def)
  have c1: "sink_calls ?w1 = [([[(''id'', VInt 1), (''name'', VStr ''Alice'')]], [])]"
    by (simp add: ex_defs eval_defs)
  from run_twice_empty_diff [OF ok rt]
  have "sink_calls (snd (run_with ex_env ArcGisOnlineSink_upsert (ex_manager\<lparr>dry_run := False\<rparr>)
          ex_source ?w1)) = sink_calls ?w1 @ [([], [])]"
    by blast
  moreover have "ex_manager\<lparr>dry_run := False\<rparr> = ex_manager" by (simp add: ex_manager_def)
  ultimately show ?thesis using f1 c1 by simp
qed

section \<open>A record without the key column\<close>

text \<open>
  Claim C5. If some record of the source lacks the configured key column, the run
  raises \<open>KeyError\<close> carrying the key column and the first such record, and it
  does so before the state is loaded and before the sink is called: the world is left
  exactly as it was, with no entry added to the history of sink calls.
\<close>

theorem run_missing_key_fails_before_sink:
  assumes "\<exists>rec \<in> set recs. \<not> dict_has rec (key_col sm)"
  shows "\<exists>pre rec post. recs = pre @ rec # post \<and> (\<forall>r \<in> set pre. dict_has r (key_col sm)) \<and>
           \<not> dict_has rec (key_col sm) \<and>
           run_with e upsert sm recs w = (Some (KeyError (key_col sm) rec), w)"
proof -
  have "\<exists>rec \<in> set recs. dict_get rec (key_col sm) = None"
    using assms by (simp add: dict_has_def dict_get_def)
  from build_fails [OF this, of "[]"] obtain pre rec post where
    p: "recs = pre @ rec # post" "\<forall>r \<in> set pre. dict_get r (key_col sm) \<noteq> None"
       "dict_get rec (key_col sm) = None"
       "build_current_map (key_col sm) recs [] = Inl (KeyError (key_col sm) rec)"
    by blast
  have "run_with e upsert sm recs w = (Some (KeyError (key_col sm) rec), w)"
    using run_with_Inl [OF p(4)] .
  with p(1-3) show ?thesis by (auto simp: dict_has_def dict_get_def)
qed

theorem run_missing_key_fails_before_sink_witness:
  "(\<exists>rec \<in> set ex_source_missing. \<not> dict_has rec (key_col ex_manager)) \<and>
   fst (run_with ex_env ArcGisOnlineSink_upsert ex_manager ex_source_missing ex_world) \<noteq> None \<and>
   snd (run_with ex_env ArcGisOnlineSink_upsert ex_manager ex_source_missing ex_world) = ex_world"
proof -
  have h: "\<exists>rec \<in> set ex_source_missing. \<not> dict_has rec (key_col ex_manager)"
    by (simp add: ex_source_missing_def ex_manager_def dict_has_def)
  from run_missing_key_fails_before_sink [OF h, of ex_env ArcGisOnlineSink_upsert ex_world]
  show ?thesis using h by auto
qed

section \<open>Missing or corrupt state file\<close>

text \<open>
  Claim C6. When the state file does not exist, or its content is rejected by the
  parser, loading the state returns the empty mapping without raising; the corrupt case,
  and only it, logs a warning. Against that empty state every record of the current
  dataset is an insert and none is an update.
\<close>

theorem load_state_missing_or_corrupt:
  assumes "state_file w = None \<or> (\<exists>c. state_file w = Some c \<and> json_loads e c = None)"
  shows "load_state e w = ([], if state_file w = None then [] else [StateCorruptWarning]) \<and>
         diff_by_hash (digest e) (hash_key e) cm (fst (load_state e w)) = (dict_values cm, [])"
proof -
  have l: "load_state e w = ([], if state_file w = None then [] else [StateCorruptWarning])"
    using assms by (auto simp: load_state_def)
  then show ?thesis by (simp add: diff_empty_state)
qed

theorem load_state_missing_or_corrupt_witness:
  "load_state ex_env_reject ex_world_stale = ([], [StateCorruptWarning]) \<and>
   diff_by_hash (digest ex_env_reject) (hash_key ex_env_reject) ex_dataset
     (fst (load_state ex_env_reject ex_world_stale)) = (dict_values ex_dataset, [])"
proof -
  have h: "state_file ex_world_stale = None \<or>
      (\<exists>c. state_file ex_world_stale = Some c \<and> json_loads ex_env_reject c = None)"
    by (simp add: ex_world_stale_def ex_env_reject_def)
  have sf: "state_file ex_world_stale \<noteq> None" by (simp add: ex_world_stale_def)
  from load_state_missing_or_corrupt [OF h, of ex_dataset]
  have "load_state ex_env_reject ex_world_stale =
      ([], if state_file ex_world_stale = None then [] else [StateCorruptWarning])"
    and d: "diff_by_hash (digest ex_env_reject) (hash_key ex_env_reject) ex_dataset
      (fst (load_state ex_env_reject ex_world_stale)) = (dict_values ex_dataset, [])"
    by blast+
  then have "load_state ex_env_reject ex_world_stale = ([], [StateCorruptWarning])"
    using sf by simp
  with d show ?thesis by blast
qed

section \<open>The saved state is the current dataset\<close>

text \<open>
  Claim C7, as the code has it. After a successful run the state file holds the dump of
  a mapping with exactly the keys of the current dataset, each mapped to the fingerprint
  of its record. Nothing of the previous state enters it: a key is in the new state iff
  some record of the current batch has it. The replacement is wholesale; it is a plain
  overwrite of the file, not an atomic one.
\<close>

theorem run_replaces_state:
  assumes "run_with e upsert sm recs w = (None, w')"
  shows "\<exists>cm. build_current_map (key_col sm) recs [] = Inr cm \<and>
           state_file w' = Some (json_dumps e (new_hashes e cm)) \<and>
           dict_keys (new_hashes e cm) = dict_keys cm \<and>
           (\<forall>k. dict_get (new_hashes e cm) k =
                  map_option (record_hash (digest e) (hash_key e)) (dict_get cm k)) \<and>
           (\<forall>k. dict_has (new_hashes e cm) k \<longleftrightarrow> last_with_key (key_col sm) recs k \<noteq> None)"
proof -
  obtain cm where cm: "build_current_map (key_col sm) recs [] = Inr cm"
    using assms by (cases "build_current_map (key_col sm) recs []") (auto simp: run_with_def)
  have sf: "state_file w' = Some (json_dumps e (new_hashes e cm))"
    using run_with_Inr(2) [OF cm, of e upsert w] assms by simp
  have keys: "dict_keys (new_hashes e cm) = dict_keys cm"
    by (simp add: new_hashes_def dict_keys_def case_prod_beta comp_def)
  have look: "dict_get (new_hashes e cm) k =
      map_option (record_hash (digest e) (hash_key e)) (dict_get cm k)" for k
    by (simp add: new_hashes_def dict_get_def map_of_map)
  have "dict_has (new_hashes e cm) k \<longleftrightarrow> last_with_key (key_col sm) recs k \<noteq> None" for k
    using look [of k] build_lookup [OF cm, of k]
    by (auto simp: dict_has_def dict_get_def split: option.splits)
  with cm sf keys look show ?thesis by blast
qed

theorem run_replaces_state_witness:
  "state_file ex_world_stale = Some [(''2'', ''name=Rob''), (''3'', ''name=Cy''), (''9'', ''name=Zed'')] \<and>
   state_file (snd (run_with ex_env ArcGisOnlineSink_upsert ex_manager ex_source ex_world_stale)) =
     Some [(''1'', ''name=Alice'')]"
proof -
  let ?w1 = "snd (run_with ex_env ArcGisOnlineSink_upsert ex_manager ex_source ex_world_stale)"
  have "fst (run_with ex_env ArcGisOnlineSink_upsert ex_manager ex_source ex_world_stale) = None"
    by (simp add: ex_defs eval_defs)
  then have ok: "run_with ex_env ArcGisOnlineSink_upsert ex_manager ex_source ex_world_stale = (None, ?w1)"
    by (metis prod.collapse)
  from run_replaces_state [OF ok] obtain cm where
    cm: "build_current_map (key_col ex_manager) ex_source [] = Inr cm"
    and sf: "state_file ?w1 = Some (json_dumps ex_env (new_hashes ex_env cm))"
    by blast
  have "cm = [(''1'', [(''id'', VInt 1), (''name'', VStr ''Alice'')])]"
    using cm by (simp add: ex_defs eval_defs)
  then show ?thesis using sf by (simp add: ex_defs eval_defs)
qed

text \<open>
  The overwrite is not atomic. While the state of a successful run is being saved over a
  previous state, the file first holds the blank content, which is neither the previous
  state nor the new one; a run that loaded the state at that moment would find it
  corrupt and start from the empty state.
\<close>

lemma save_state_steps_last:
  "last (save_state_steps blank e hashes w) = save_state e hashes w"
  by (simp add: save_state_steps_def write_text_steps_def save_state_def)

theorem save_state_not_atomic:
  "fst (run_with ex_file_env ArcGisOnlineSink_upsert ex_manager ex_source ex_file_world) = None \<and>
   state_file ex_file_world = Some (Some ex_prev) \<and>
   state_file (snd (run_with ex_file_env ArcGisOnlineSink_upsert ex_manager ex_source ex_file_world)) =
     Some (Some [(''1'', ''name=Alice'')]) \<and>
   new_hashes ex_file_env [(''1'', [(''id'', VInt 1), (''name'', VStr ''Alice'')])] =
     [(''1'', ''name=Alice'')] \<and>
   map state_file (save_state_steps None ex_file_env [(''1'', ''name=Alice'')] ex_file_world) =
     [Some None, Some (Some [(''1'', ''name=Alice'')])] \<and>
   Some None \<noteq> state_file ex_file_world \<and>
   Some None \<noteq> Some (Some [(''1'', ''name=Alice'')]) \<and>
   load_state ex_file_env (hd (save_state_steps None ex_file_env [(''1'', ''name=Alice'')] ex_file_world)) =
     ([], [StateCorruptWarning])"
  by (simp add: save_state_steps_def write_text_steps_def ex_file_env_def ex_file_world_def
      ex_manager_def ex_source_def ex_prev_def run_with_def dict_get_def str_int_def str_nat.simps
      digit_char_def load_state_def diff_by_hash_def ArcGisOnlineSink_upsert_def save_state_def
      new_hashes_def record_hash_def canonical_string_def canonical_fields_def)

section \<open>A failing sink\<close>



section \<open>Records whose keys coerce to the same string\<close>



section \<open>Dry run\<close>

text \<open>
  Claim C4. A dry run logs the counts and leaves the external store alone, but
  \<open>run\<close> goes on to save the state all the same: on a source of one record and
  no state file, the dry run writes the fingerprint of that record, and the real run
  that follows finds nothing to insert, where a real run on the untouched world inserts
  the record.
\<close>

theorem dry_run_saves_state:
  "dry_run ex_dry_manager \<and> state_file ex_world = None \<and>
   fst (run ex_env ex_dry_manager ex_source ex_world) = None \<and>
   state_file (snd (run ex_env ex_dry_manager ex_source ex_world)) = Some [(''1'', ''name=Alice'')] \<and>
   sink_calls (snd (run ex_env ex_manager ex_source ex_world)) =
     [([[(''id'', VInt 1), (''name'', VStr ''Alice'')]], [])] \<and>
   sink_calls (snd (run ex_env ex_manager ex_source (snd (run ex_env ex_dry_manager ex_source ex_world)))) =
     [([[(''id'', VInt 1), (''name'', VStr ''Alice'')]], []), ([], [])]"
  by (simp add: ex_defs eval_defs)

section \<open>Batch upload in chunks\<close>

lemma take_slice:
  "start < length sdf \<Longrightarrow>
   take (min (start + bs) (length sdf) - start) (drop start sdf) = take bs (drop start sdf)"
  by (cases "start + bs \<le> length sdf") (simp_all add: min_def)


lemma append_loop_build_raises:
  "0 < bs \<Longrightarrow> start < length sdf \<Longrightarrow> build (take bs (drop start sdf)) = Inl msg \<Longrightarrow>
   append_loop build edit sdf bs start st = (Some (BuildRaised msg), st)"
  by (subst append_loop.simps) (simp add: take_slice Let_def)












end
